theory Spec2Isabelle
  imports Main
begin

section \<open>Data model of \<open>brainfuck.py\<close>\<close>

text \<open>
  The eight members of the enum \<open>TokenEnum\<close>, in the order of the source.
\<close>

datatype TokenEnum =
    INCREMENT_POINTER
  | DECREMENT_POINTER
  | INCREMENT_BYTE
  | DECREMENT_BYTE
  | OUTPUT_BYTE
  | INPUT_BYTE
  | LOOP_START
  | LOOP_END

text \<open>
  The exceptions the program can raise: \<open>KeyError\<close> from a dictionary subscript on a
  missing key, \<open>IndexError\<close> from \<open>pop\<close> on an empty list, and \<open>ValueError\<close> from
  \<open>chr\<close> on an argument outside \<open>range(0x110000)\<close> (CPython reports the largest
  arguments as an \<open>OverflowError\<close> instead; the model keeps one constructor for an
  argument that \<open>chr\<close> refuses).
\<close>

datatype error = KeyError | IndexError | ValueError

text \<open>
  A Python \<open>str\<close> is a sequence of Unicode code points, so a string is modelled as the
  list of its code points. \<open>py_str\<close> reads an ASCII literal as such a list.
\<close>

type_synonym pystr = "nat list"

definition py_str :: "string \<Rightarrow> pystr" where
  "py_str s = map of_char s"

text \<open>Class \<open>BrainfuckToken\<close>: the fields \<open>type\<close> and \<open>_char_idx\<close>.\<close>

record BrainfuckToken =
  type :: TokenEnum
  char_idx :: nat

text \<open>\<open>BrainfuckToken(token_type, source_char_idx)\<close>, the constructor call.\<close>

abbreviation Token :: "TokenEnum \<Rightarrow> nat \<Rightarrow> BrainfuckToken" where
  "Token token_type source_char_idx \<equiv> \<lparr>type = token_type, char_idx = source_char_idx\<rparr>"

text \<open>The class attribute \<open>token_enum_map\<close>, a dictionary keyed by one-character strings.\<close>

definition token_enum_map :: "nat \<rightharpoonup> TokenEnum" where
  "token_enum_map =
     [ of_char CHR ''>'' \<mapsto> INCREMENT_POINTER,
       of_char CHR ''<'' \<mapsto> DECREMENT_POINTER,
       of_char CHR ''+'' \<mapsto> INCREMENT_BYTE,
       of_char CHR ''-'' \<mapsto> DECREMENT_BYTE,
       of_char CHR ''.'' \<mapsto> OUTPUT_BYTE,
       of_char CHR '','' \<mapsto> INPUT_BYTE,
       of_char CHR ''['' \<mapsto> LOOP_START,
       of_char CHR '']'' \<mapsto> LOOP_END ]"

text \<open>
  \<open>BrainfuckToken.from_char\<close>: the subscript \<open>token_enum_map[char]\<close> raises
  \<open>KeyError\<close> on a character that is not a key.
\<close>

definition from_char :: "nat \<Rightarrow> nat \<Rightarrow> error + BrainfuckToken" where
  "from_char c idx =
     (case token_enum_map c of
        None \<Rightarrow> Inl KeyError
      | Some token_type \<Rightarrow> Inr \<lparr>type = token_type, char_idx = idx\<rparr>)"

section \<open>The lexer\<close>

definition valid_whitespaces :: "nat list" where
  "valid_whitespaces = [of_char CHR '' '', of_char CHR 0x0A, of_char CHR 0x09]"

text \<open>
  The loop of \<open>BrainfuckLexer.tokenize\<close> over \<open>enumerate(self._program)\<close>, with the
  list \<open>tokens\<close> built so far as accumulator.
\<close>

fun tokenize_loop :: "(nat \<times> nat) list \<Rightarrow> BrainfuckToken list \<Rightarrow> error + BrainfuckToken list" where
  "tokenize_loop [] toks = Inr toks"
| "tokenize_loop ((idx, c) # rest) toks =
     (if c \<in> set valid_whitespaces then tokenize_loop rest toks
      else if c \<notin> dom token_enum_map then tokenize_loop rest toks
      else (case from_char c idx of
              Inl e \<Rightarrow> Inl e
            | Inr t \<Rightarrow> tokenize_loop rest (toks @ [t])))"

definition tokenize :: "pystr \<Rightarrow> error + BrainfuckToken list" where
  "tokenize program = tokenize_loop (enumerate 0 program) []"

section \<open>The interpreter\<close>

text \<open>
  Class \<open>BrainfuckInterpreter\<close>: the fields \<open>_tokens\<close>, \<open>_jump_table\<close>, \<open>_bits\<close> and
  \<open>_bitwidth\<close>. Indices into the token list are natural numbers; the bit-width and the
  modulus are Python integers.
\<close>

record BrainfuckInterpreter =
  tokens :: "BrainfuckToken list"
  jump_table :: "nat \<rightharpoonup> nat"
  bits :: int
  bitwidth :: int

text \<open>
  The loop of \<open>validate\<close>. The list \<open>jump_stack\<close> grows at its end (\<open>append\<close>) and
  shrinks at its end (\<open>pop\<close>); \<open>pop\<close> on the empty list raises \<open>IndexError\<close>. The two
  \<open>if\<close> statements of the body are tested one after the other, as in the source.
\<close>

fun validate_loop :: "(nat \<times> BrainfuckToken) list \<Rightarrow> nat list \<Rightarrow> error + nat list" where
  "validate_loop [] jump_stack = Inr jump_stack"
| "validate_loop ((i, token) # rest) jump_stack =
     (let st = (if type token = LOOP_START then jump_stack @ [i] else jump_stack) in
      if type token = LOOP_END then
        (if st = [] then Inl IndexError else validate_loop rest (butlast st))
      else validate_loop rest st)"

definition validate :: "BrainfuckToken list \<Rightarrow> error + bool" where
  "validate toks =
     (case validate_loop (enumerate 0 toks) [] of
        Inl e \<Rightarrow> Inl e
      | Inr jump_stack \<Rightarrow> Inr (jump_stack = []))"

text \<open>
  The loop of \<open>_calc_jump_table\<close>, threading the stack and the dictionary
  \<open>self._jump_table\<close>. On a \<open>LOOP_END\<close> at \<open>i\<close> it stores \<open>start_loop\<close> under \<open>i\<close> and then
  \<open>i + 1\<close> under \<open>start_loop\<close>.
\<close>

fun calc_loop ::
  "(nat \<times> BrainfuckToken) list \<Rightarrow> nat list \<Rightarrow> (nat \<rightharpoonup> nat) \<Rightarrow> error + (nat list \<times> (nat \<rightharpoonup> nat))" where
  "calc_loop [] jump_stack jt = Inr (jump_stack, jt)"
| "calc_loop ((i, token) # rest) jump_stack jt =
     (let st = (if type token = LOOP_START then jump_stack @ [i] else jump_stack) in
      if type token = LOOP_END then
        (if st = [] then Inl IndexError
         else (let start_loop = last st;
                   jt1 = jt(i \<mapsto> start_loop);
                   jt2 = jt1(start_loop \<mapsto> i + 1)
               in calc_loop rest (butlast st) jt2))
      else calc_loop rest st jt)"

definition calc_jump_table :: "BrainfuckToken list \<Rightarrow> (nat \<rightharpoonup> nat) \<Rightarrow> error + (nat \<rightharpoonup> nat)" where
  "calc_jump_table toks jt =
     (case calc_loop (enumerate 0 toks) [] jt of
        Inl e \<Rightarrow> Inl e
      | Inr (jump_stack, jt') \<Rightarrow> Inr jt')"

text \<open>
  \<open>BrainfuckInterpreter.__init__\<close>: the verdict of \<open>validate\<close> is dropped, an exception
  of \<open>validate\<close> or \<open>_calc_jump_table\<close> leaves the constructor, and the bit-width is taken
  from the argument only when it is one of 8, 16, 32, 64.
\<close>

definition interpreter_init :: "BrainfuckToken list \<Rightarrow> int \<Rightarrow> error + BrainfuckInterpreter" where
  "interpreter_init toks b =
     (case validate toks of
        Inl e \<Rightarrow> Inl e
      | Inr verdict \<Rightarrow>
          (case calc_jump_table toks Map.empty of
             Inl e \<Rightarrow> Inl e
           | Inr jt \<Rightarrow>
               (if b \<in> set [8, 16, 32, 64]
                then Inr \<lparr>tokens = toks, jump_table = jt, bits = b, bitwidth = 2 ^ nat b\<rparr>
                else Inr \<lparr>tokens = toks, jump_table = jt, bits = 8, bitwidth = 256\<rparr>)))"

subsection \<open>Execution\<close>

text \<open>The local variables of \<open>run\<close>. The string \<open>output\<close> is the field \<open>out\<close>, a list of code points.\<close>

record run_state =
  pointer :: int
  instr :: nat
  steps :: nat
  data :: "int \<rightharpoonup> int"
  out :: pystr

text \<open>Dictionary subscript, \<open>dict.setdefault\<close> and \<open>chr\<close>.\<close>

definition getitem :: "('k \<rightharpoonup> 'v) \<Rightarrow> 'k \<Rightarrow> error + 'v" where
  "getitem d k = (case d k of None \<Rightarrow> Inl KeyError | Some v \<Rightarrow> Inr v)"

definition setdefault :: "('k \<rightharpoonup> 'v) \<Rightarrow> 'k \<Rightarrow> 'v \<Rightarrow> ('k \<rightharpoonup> 'v)" where
  "setdefault d k v = (case d k of None \<Rightarrow> d(k \<mapsto> v) | Some w \<Rightarrow> d)"

definition py_chr :: "int \<Rightarrow> error + nat" where
  "py_chr v = (if 0 \<le> v \<and> v \<le> 0x10FFFF then Inr (nat v) else Inl ValueError)"

text \<open>
  The branches \<open>INCREMENT_BYTE\<close> and \<open>DECREMENT_BYTE\<close>: the augmented assignment reads
  and writes \<open>data[pointer]\<close>, the test reads it again.
\<close>

definition increment_byte :: "int \<Rightarrow> (int \<rightharpoonup> int) \<Rightarrow> int \<Rightarrow> error + (int \<rightharpoonup> int)" where
  "increment_byte bw d p =
     (case getitem d p of
        Inl e \<Rightarrow> Inl e
      | Inr v \<Rightarrow>
          (let d1 = d(p \<mapsto> v + 1) in
           case getitem d1 p of
             Inl e \<Rightarrow> Inl e
           | Inr v1 \<Rightarrow> Inr (if v1 = bw then d1(p \<mapsto> 0) else d1)))"

definition decrement_byte :: "int \<Rightarrow> (int \<rightharpoonup> int) \<Rightarrow> int \<Rightarrow> error + (int \<rightharpoonup> int)" where
  "decrement_byte bw d p =
     (case getitem d p of
        Inl e \<Rightarrow> Inl e
      | Inr v \<Rightarrow>
          (let d1 = d(p \<mapsto> v - 1) in
           case getitem d1 p of
             Inl e \<Rightarrow> Inl e
           | Inr v1 \<Rightarrow> Inr (if v1 = - 1 then d1(p \<mapsto> bw - 1) else d1)))"

text \<open>
  One pass through the body of \<open>while True\<close> after the \<open>break\<close> test, that is with
  \<open>instr < len(self._tokens)\<close>: \<open>data.setdefault(pointer, 0)\<close>, then the dispatch on the
  token type, then \<open>instr += 1\<close> unless a loop branch has jumped (\<open>continue\<close>).
\<close>

definition loop_body :: "BrainfuckInterpreter \<Rightarrow> run_state \<Rightarrow> error + run_state" where
  "loop_body I s =
     (let typ = type (tokens I ! instr s);
          p = pointer s;
          d = setdefault (data s) p 0;
          s0 = s\<lparr>data := d\<rparr>
      in case typ of
           INCREMENT_POINTER \<Rightarrow> Inr (s0\<lparr>pointer := p + 1, instr := instr s + 1\<rparr>)
         | DECREMENT_POINTER \<Rightarrow> Inr (s0\<lparr>pointer := p - 1, instr := instr s + 1\<rparr>)
         | INCREMENT_BYTE \<Rightarrow>
             (case increment_byte (bitwidth I) d p of
                Inl e \<Rightarrow> Inl e
              | Inr d' \<Rightarrow> Inr (s0\<lparr>data := d', instr := instr s + 1\<rparr>))
         | DECREMENT_BYTE \<Rightarrow>
             (case decrement_byte (bitwidth I) d p of
                Inl e \<Rightarrow> Inl e
              | Inr d' \<Rightarrow> Inr (s0\<lparr>data := d', instr := instr s + 1\<rparr>))
         | OUTPUT_BYTE \<Rightarrow>
             (let d' = setdefault d p 0 in
              case getitem d' p of
                Inl e \<Rightarrow> Inl e
              | Inr v \<Rightarrow>
                  (case py_chr v of
                     Inl e \<Rightarrow> Inl e
                   | Inr ch \<Rightarrow>
                       Inr (s0\<lparr>data := d', out := out s @ [ch], instr := instr s + 1\<rparr>)))
         | INPUT_BYTE \<Rightarrow> Inr (s0\<lparr>instr := instr s + 1\<rparr>)
         | LOOP_START \<Rightarrow>
             (case getitem d p of
                Inl e \<Rightarrow> Inl e
              | Inr v \<Rightarrow>
                  (if v = 0 then
                     (case getitem (jump_table I) (instr s) of
                        Inl e \<Rightarrow> Inl e
                      | Inr target \<Rightarrow> Inr (s0\<lparr>instr := target\<rparr>))
                   else Inr (s0\<lparr>instr := instr s + 1\<rparr>)))
         | LOOP_END \<Rightarrow>
             (case getitem d p of
                Inl e \<Rightarrow> Inl e
              | Inr v \<Rightarrow>
                  (if v \<noteq> 0 then
                     (case getitem (jump_table I) (instr s) of
                        Inl e \<Rightarrow> Inl e
                      | Inr target \<Rightarrow> Inr (s0\<lparr>instr := target\<rparr>))
                   else Inr (s0\<lparr>instr := instr s + 1\<rparr>))))"

text \<open>\<open>steps += 1\<close> at the head of every pass.\<close>

definition tick :: "run_state \<Rightarrow> run_state" where
  "tick s = s\<lparr>steps := steps s + 1\<rparr>"

text \<open>
  The loop \<open>while True\<close> of \<open>run\<close>. It has no bound on the number of passes, so the
  result is an option: \<open>None\<close> is a run that never leaves the loop, \<open>Some (Inl e)\<close> a run
  that raises \<open>e\<close>, \<open>Some (Inr out)\<close> a run that returns \<open>out\<close>.
\<close>

partial_function (option) run_loop ::
  "BrainfuckInterpreter \<Rightarrow> run_state \<Rightarrow> (error + pystr) option" where
  "run_loop I s =
     (if instr (tick s) \<ge> length (tokens I) then Some (Inr (out (tick s)))
      else (case loop_body I (tick s) of
              Inl e \<Rightarrow> Some (Inl e)
            | Inr s' \<Rightarrow> run_loop I s'))"

declare run_loop.simps [code]

definition initial_state :: run_state where
  "initial_state = \<lparr>pointer = 0, instr = 0, steps = 0, data = Map.empty, out = []\<rparr>"

definition run :: "BrainfuckInterpreter \<Rightarrow> (error + pystr) option" where
  "run I = run_loop I initial_state"

text \<open>
  \<open>BrainfuckInterpreter.from_file\<close> tokenizes the text of the file and constructs the
  interpreter; \<open>main\<close> runs it. Reading the file is outside the model: the argument is
  the text read.
\<close>

definition from_file :: "pystr \<Rightarrow> int \<Rightarrow> error + BrainfuckInterpreter" where
  "from_file program_text b =
     (case tokenize program_text of
        Inl e \<Rightarrow> Inl e
      | Inr toks \<Rightarrow> interpreter_init toks b)"

definition run_file :: "pystr \<Rightarrow> int \<Rightarrow> (error + pystr) option" where
  "run_file program_text b =
     (case from_file program_text b of
        Inl e \<Rightarrow> Some (Inl e)
      | Inr I \<Rightarrow> run I)"

section \<open>Vocabulary of the specification\<close>

text \<open>
  The specification speaks of bracket-balanced sequences, unmatched brackets and matched
  pairs without reference to the stack of the implementation. The definitions of this
  section follow its words; the theorems below relate them to the code.

  \<open>bracket_depth ts d\<close> scans the token types left to right with \<open>d\<close> brackets open:
  a \<open>LOOP_START\<close> opens one, a \<open>LOOP_END\<close> closes the most recently opened one, and a
  \<open>LOOP_END\<close> met while no loop is open is unmatched (\<open>None\<close>). Otherwise the result is
  the number of brackets still open at the end.
\<close>

fun bracket_depth :: "TokenEnum list \<Rightarrow> nat \<Rightarrow> nat option" where
  "bracket_depth [] d = Some d"
| "bracket_depth (t # ts) d =
     (if t = LOOP_START then bracket_depth ts (d + 1)
      else if t = LOOP_END then (case d of 0 \<Rightarrow> None | Suc d' \<Rightarrow> bracket_depth ts d')
      else bracket_depth ts d)"

text \<open>Well-formed: no unmatched \<open>LOOP_END\<close> and no loop left open.\<close>

definition balanced :: "BrainfuckToken list \<Rightarrow> bool" where
  "balanced toks = (bracket_depth (map type toks) 0 = Some 0)"

text \<open>A \<open>LOOP_END\<close> is met when no \<open>LOOP_START\<close> is open.\<close>

definition unmatched_loop_end :: "BrainfuckToken list \<Rightarrow> bool" where
  "unmatched_loop_end toks = (bracket_depth (map type toks) 0 = None)"

text \<open>Every \<open>LOOP_END\<close> closes an open loop, and at least one loop is open at the end.\<close>

definition unclosed_loop_start :: "BrainfuckToken list \<Rightarrow> bool" where
  "unclosed_loop_start toks =
     (case bracket_depth (map type toks) 0 of None \<Rightarrow> False | Some d \<Rightarrow> 0 < d)"

text \<open>
  The \<open>LOOP_START\<close> at \<open>i\<close> and the \<open>LOOP_END\<close> at \<open>j\<close> match: the tokens strictly
  between them are balanced, so that \<open>j\<close> closes the loop opened at \<open>i\<close>.
\<close>

definition matched_pair :: "BrainfuckToken list \<Rightarrow> nat \<Rightarrow> nat \<Rightarrow> bool" where
  "matched_pair toks i j =
     (i < j \<and> j < length toks \<and> type (toks ! i) = LOOP_START \<and> type (toks ! j) = LOOP_END
      \<and> balanced (take (j - i - 1) (drop (i + 1) toks)))"

definition is_bracket :: "BrainfuckToken \<Rightarrow> bool" where
  "is_bracket t = (type t = LOOP_START \<or> type t = LOOP_END)"

text \<open>
  The eight recognized symbols and the instruction kind the specification assigns to each
  (section 4.1).
\<close>

definition recognized :: "nat \<Rightarrow> bool" where
  "recognized c = (c \<in> set (py_str ''><+-.,[]''))"

definition symbol_kind :: "nat \<Rightarrow> TokenEnum" where
  "symbol_kind c =
     (if c = of_char CHR ''>'' then INCREMENT_POINTER
      else if c = of_char CHR ''<'' then DECREMENT_POINTER
      else if c = of_char CHR ''+'' then INCREMENT_BYTE
      else if c = of_char CHR ''-'' then DECREMENT_BYTE
      else if c = of_char CHR ''.'' then OUTPUT_BYTE
      else if c = of_char CHR '','' then INPUT_BYTE
      else if c = of_char CHR ''['' then LOOP_START
      else LOOP_END)"

text \<open>
  The states an execution passes through at the head of the loop of \<open>run\<close>: the initial
  one, and the one each completed pass leaves behind.
\<close>

inductive reachable :: "BrainfuckInterpreter \<Rightarrow> run_state \<Rightarrow> bool" for I where
  reachable_init: "reachable I initial_state"
| reachable_step:
    "reachable I s \<Longrightarrow> instr (tick s) < length (tokens I) \<Longrightarrow>
     loop_body I (tick s) = Inr s' \<Longrightarrow> reachable I s'"

code_pred reachable .

text \<open>Every value in the cell store lies in \<open>[0, 2^bits)\<close>.\<close>

definition cells_in_range :: "BrainfuckInterpreter \<Rightarrow> (int \<rightharpoonup> int) \<Rightarrow> bool" where
  "cells_in_range I d = (\<forall>v \<in> ran d. 0 \<le> v \<and> v < 2 ^ nat (bits I))"

section \<open>The bracket scans\<close>

subsection \<open>One pass of \<open>_calc_jump_table\<close>\<close>

lemma calc_loop_start:
  "type t = LOOP_START \<Longrightarrow> calc_loop ((i, t) # rest) js jt = calc_loop rest (js @ [i]) jt"
  by simp

lemma calc_loop_end:
  "type t = LOOP_END \<Longrightarrow>
   calc_loop ((i, t) # rest) (js @ [x]) jt = calc_loop rest js (jt(i \<mapsto> x, x \<mapsto> Suc i))"
  by (simp add: Let_def)

lemma calc_loop_end_empty:
  "type t = LOOP_END \<Longrightarrow> calc_loop ((i, t) # rest) [] jt = Inl IndexError"
  by simp

lemma calc_loop_other:
  "type t \<noteq> LOOP_START \<Longrightarrow> type t \<noteq> LOOP_END \<Longrightarrow>
   calc_loop ((i, t) # rest) js jt = calc_loop rest js jt"
  by simp

text \<open>\<open>validate\<close> runs the same stack as \<open>_calc_jump_table\<close> and forgets the table.\<close>

lemma validate_loop_calc_loop:
  "validate_loop es js = map_sum id fst (calc_loop es js jt)"
proof (induction es arbitrary: js jt)
  case Nil
  show ?case by simp
next
  case (Cons a es)
  obtain i t where a: "a = (i, t)" by (cases a)
  show ?case
  proof (cases "type t = LOOP_END")
    case True
    show ?thesis
    proof (cases js rule: rev_cases)
      case Nil
      with True a show ?thesis by simp
    next
      case (snoc q x)
      have "validate_loop (a # es) js = validate_loop es q"
        using True a snoc by simp
      also have "\<dots> = map_sum id fst (calc_loop es q (jt(i \<mapsto> x, x \<mapsto> Suc i)))"
        by (rule Cons.IH)
      also have "\<dots> = map_sum id fst (calc_loop (a # es) js jt)"
        unfolding a snoc calc_loop_end [OF True] ..
      finally show ?thesis .
    qed
  next
    case False
    then show ?thesis using a Cons.IH by simp
  qed
qed

text \<open>The pass over a concatenation is the pass over the first part, then over the second.\<close>

lemma calc_loop_append:
  "calc_loop (es @ fs) js jt =
     (case calc_loop es js jt of Inl e \<Rightarrow> Inl e | Inr (js', jt') \<Rightarrow> calc_loop fs js' jt')"
proof (induction es arbitrary: js jt)
  case Nil
  show ?case by simp
next
  case (Cons a es)
  obtain i t where a: "a = (i, t)" by (cases a)
  show ?case
  proof (cases "type t = LOOP_END")
    case True
    show ?thesis
    proof (cases js rule: rev_cases)
      case Nil
      with True a show ?thesis by simp
    next
      case (snoc q x)
      show ?thesis
        unfolding a snoc append_Cons calc_loop_end [OF True] by (rule Cons.IH)
    qed
  next
    case False
    then show ?thesis using a Cons.IH by simp
  qed
qed

subsection \<open>The stack and the bracket depth\<close>

lemma calc_loop_depth_Some:
  "bracket_depth (map type ts) (length p) = Some d \<Longrightarrow>
   \<exists>p' jt'. calc_loop (enumerate k ts) (js @ p) jt = Inr (js @ p', jt') \<and> length p' = d"
proof (induction ts arbitrary: k p jt)
  case Nil
  then show ?case by simp
next
  case (Cons t ts)
  show ?case
  proof (cases "type t = LOOP_START")
    case True
    with Cons.prems have "bracket_depth (map type ts) (length (p @ [k])) = Some d" by simp
    from Cons.IH [OF this, of "Suc k" jt] True show ?thesis by simp
  next
    case False
    show ?thesis
    proof (cases "type t = LOOP_END")
      case True
      with Cons.prems obtain q x where p: "p = q @ [x]"
        and d: "bracket_depth (map type ts) (length q) = Some d"
        by (cases p rule: rev_cases) (auto split: nat.splits)
      have eq: "calc_loop (enumerate k (t # ts)) (js @ p) jt
          = calc_loop (enumerate (Suc k) ts) (js @ q) (jt(k \<mapsto> x, x \<mapsto> Suc k))"
        unfolding p enumerate_simps append_assoc [symmetric] by (rule calc_loop_end [OF True])
      show ?thesis unfolding eq by (rule Cons.IH [OF d])
    next
      case F2: False
      with False Cons.prems have "bracket_depth (map type ts) (length p) = Some d" by simp
      from Cons.IH [OF this, of "Suc k" jt] False F2 show ?thesis by simp
    qed
  qed
qed

lemma calc_loop_depth_None:
  "bracket_depth (map type ts) (length js) = None \<Longrightarrow>
   calc_loop (enumerate k ts) js jt = Inl IndexError"
proof (induction ts arbitrary: k js jt)
  case Nil
  then show ?case by simp
next
  case (Cons t ts)
  show ?case
  proof (cases "type t = LOOP_START")
    case True
    with Cons.prems have "bracket_depth (map type ts) (length (js @ [k])) = None" by simp
    from Cons.IH [OF this, of "Suc k" jt] True show ?thesis by simp
  next
    case False
    show ?thesis
    proof (cases "type t = LOOP_END")
      case True
      show ?thesis
      proof (cases js rule: rev_cases)
        case Nil
        with True show ?thesis by simp
      next
        case (snoc q x)
        with True Cons.prems have "bracket_depth (map type ts) (length q) = None" by simp
        from Cons.IH [OF this, of "Suc k" "jt(k \<mapsto> x, x \<mapsto> Suc k)"]
        show ?thesis unfolding snoc enumerate_simps calc_loop_end [OF True] .
      qed
    next
      case F2: False
      with False Cons.prems have "bracket_depth (map type ts) (length js) = None" by simp
      from Cons.IH [OF this, of "Suc k" jt] False F2 show ?thesis by simp
    qed
  qed
qed

lemma calc_loop_frame:
  "calc_loop (enumerate k ts) js jt = Inr (js', jt') \<Longrightarrow>
   (\<forall>x<k. x \<notin> set js \<longrightarrow> jt' x = jt x) \<and>
   (\<forall>x\<in>set js'. x \<in> set js \<or> (k \<le> x \<and> x < k + length ts))"
proof (induction ts arbitrary: k js jt)
  case Nil
  then show ?case by simp
next
  case (Cons t ts)
  show ?case
  proof (cases "type t = LOOP_START")
    case True
    with Cons.prems have "calc_loop (enumerate (Suc k) ts) (js @ [k]) jt = Inr (js', jt')" by simp
    from Cons.IH [OF this] show ?thesis by auto
  next
    case False
    show ?thesis
    proof (cases "type t = LOOP_END")
      case True
      show ?thesis
      proof (cases js rule: rev_cases)
        case Nil
        with True Cons.prems show ?thesis by simp
      next
        case (snoc q x)
        with True Cons.prems
        have "calc_loop (enumerate (Suc k) ts) q (jt(k \<mapsto> x, x \<mapsto> Suc k)) = Inr (js', jt')"
          by (simp add: Let_def)
        then have "(\<forall>y<Suc k. y \<notin> set q \<longrightarrow> jt' y = (jt(k \<mapsto> x, x \<mapsto> Suc k)) y) \<and>
            (\<forall>y\<in>set js'. y \<in> set q \<or> (Suc k \<le> y \<and> y < Suc k + length ts))"
          by (rule Cons.IH)
        with snoc show ?thesis by auto
      qed
    next
      case F2: False
      with False Cons.prems have "calc_loop (enumerate (Suc k) ts) js jt = Inr (js', jt')" by simp
      from Cons.IH [OF this] show ?thesis by auto
    qed
  qed
qed

lemma calc_loop_dom:
  "calc_loop es js jt = Inr (js', jt') \<Longrightarrow>
   dom jt \<union> set js \<union> {x. \<exists>t. (x, t) \<in> set es \<and> is_bracket t} \<subseteq> dom jt' \<union> set js'"
proof (induction es arbitrary: js jt)
  case Nil
  then show ?case by auto
next
  case (Cons a es)
  obtain i t where a: "a = (i, t)" by (cases a)
  show ?case
  proof (cases "type t = LOOP_START")
    case True
    with Cons.prems a have "calc_loop es (js @ [i]) jt = Inr (js', jt')" by simp
    from Cons.IH [OF this] a show ?thesis by auto
  next
    case False
    show ?thesis
    proof (cases "type t = LOOP_END")
      case True
      show ?thesis
      proof (cases js rule: rev_cases)
        case Nil
        with True Cons.prems a show ?thesis by simp
      next
        case (snoc q x)
        with True Cons.prems a
        have "calc_loop es q (jt(i \<mapsto> x, x \<mapsto> Suc i)) = Inr (js', jt')"
          by (simp add: Let_def)
        then have "dom (jt(i \<mapsto> x, x \<mapsto> Suc i)) \<union> set q
            \<union> {x. \<exists>t. (x, t) \<in> set es \<and> is_bracket t} \<subseteq> dom jt' \<union> set js'"
          by (rule Cons.IH)
        with snoc a show ?thesis by auto
      qed
    next
      case F2: False
      with False Cons.prems a have "calc_loop es js jt = Inr (js', jt')" by simp
      from Cons.IH [OF this] a False F2 show ?thesis by (auto simp: is_bracket_def)
    qed
  qed
qed

subsection \<open>Construction and the bracket depth\<close>

lemma init_unmatched:
  assumes "unmatched_loop_end toks"
  shows "interpreter_init toks b = Inl IndexError"
proof -
  from assms have "bracket_depth (map type toks) (length ([]::nat list)) = None"
    by (simp add: unmatched_loop_end_def)
  then have "calc_loop (enumerate 0 toks) [] Map.empty = Inl IndexError"
    by (rule calc_loop_depth_None)
  then have "validate_loop (enumerate 0 toks) [] = Inl IndexError"
    by (simp add: validate_loop_calc_loop [where jt = Map.empty])
  then show ?thesis by (simp add: interpreter_init_def validate_def)
qed

lemma calc_loop_depth_top:
  assumes "bracket_depth (map type toks) 0 = Some d"
  shows "\<exists>js jt. calc_loop (enumerate 0 toks) [] Map.empty = Inr (js, jt) \<and> length js = d"
  using calc_loop_depth_Some [of toks "[]" d 0 "[]" Map.empty] assms by simp

lemma init_depth:
  assumes "bracket_depth (map type toks) 0 = Some d"
  shows "validate toks = Inr (d = 0) \<and> (\<exists>I. interpreter_init toks b = Inr I)"
proof -
  from calc_loop_depth_top [OF assms] obtain js jt where
    c: "calc_loop (enumerate 0 toks) [] Map.empty = Inr (js, jt)" and l: "length js = d"
    by blast
  have v: "validate_loop (enumerate 0 toks) [] = Inr js"
    by (simp add: validate_loop_calc_loop [where jt = Map.empty] c)
  with l have "validate toks = Inr (d = 0)" by (auto simp: validate_def)
  moreover from c this have "\<exists>I. interpreter_init toks b = Inr I"
    by (simp add: interpreter_init_def calc_jump_table_def)
  ultimately show ?thesis ..
qed

subsection \<open>Matched pairs\<close>

lemma matched_pair_split:
  assumes "matched_pair toks i j"
  shows "\<exists>pre s post. toks = pre @ [toks ! i] @ s @ [toks ! j] @ post \<and> length pre = i \<and>
           length s = j - i - 1 \<and> balanced s"
proof -
  from assms have ij: "i < j" and j: "j < length toks"
    and bal: "balanced (take (j - i - 1) (drop (i + 1) toks))"
    by (simp_all add: matched_pair_def)
  let ?r = "drop (Suc i) toks"
  have i: "i < length toks" using ij j by simp
  have r: "j - i - 1 < length ?r" using ij j by simp
  have "toks = take i toks @ toks ! i # ?r" using i by (rule id_take_nth_drop)
  moreover have "?r = take (j - i - 1) ?r @ ?r ! (j - i - 1) # drop (Suc (j - i - 1)) ?r"
    using r by (rule id_take_nth_drop)
  moreover have "?r ! (j - i - 1) = toks ! j" using ij j by simp
  ultimately have "toks = take i toks @ [toks ! i] @ take (j - i - 1) ?r @ [toks ! j]
      @ drop (Suc (j - i - 1)) ?r" by simp
  moreover have "length (take i toks) = i" using i by simp
  moreover have "length (take (j - i - 1) ?r) = j - i - 1" using r by simp
  ultimately show ?thesis using bal by (metis Suc_eq_plus1)
qed

lemma calc_loop_matched_pair:
  assumes m: "matched_pair toks i j"
    and c: "calc_loop (enumerate 0 toks) [] jt0 = Inr (jsF, jtF)"
  shows "jtF i = Some (Suc j) \<and> jtF j = Some i"
proof -
  from m have ij: "i < j" and ti: "type (toks ! i) = LOOP_START"
    and tj: "type (toks ! j) = LOOP_END"
    by (simp_all add: matched_pair_def)
  from matched_pair_split [OF m] obtain pre s post where
    toks: "toks = pre @ [toks ! i] @ s @ [toks ! j] @ post" and lp: "length pre = i"
    and ls: "length s = j - i - 1" and bal: "balanced s"
    by blast
  have sj: "Suc (i + length s) = j" using ij ls by simp
  have en: "enumerate 0 toks = enumerate 0 pre @ (i, toks ! i) # enumerate (Suc i) s
      @ (j, toks ! j) # enumerate (Suc j) post"
    by (subst toks) (simp add: enumerate_append_eq lp sj)
  from c obtain js1 jt1 where c1: "calc_loop (enumerate 0 pre) [] jt0 = Inr (js1, jt1)"
    and c2: "calc_loop ((i, toks ! i) # enumerate (Suc i) s @ (j, toks ! j) # enumerate (Suc j) post)
               js1 jt1 = Inr (jsF, jtF)"
    unfolding en calc_loop_append by (auto split: sum.splits)
  from calc_loop_frame [OF c1] lp have below: "\<forall>x\<in>set js1. x < i" by simp
  from bal have "bracket_depth (map type s) (length ([]::nat list)) = Some 0"
    by (simp add: balanced_def)
  from calc_loop_depth_Some [OF this, of "Suc i" "js1 @ [i]" jt1]
  obtain jt2 where c3: "calc_loop (enumerate (Suc i) s) (js1 @ [i]) jt1 = Inr (js1 @ [i], jt2)"
    by auto
  from c2 have "calc_loop (enumerate (Suc i) s @ (j, toks ! j) # enumerate (Suc j) post)
      (js1 @ [i]) jt1 = Inr (jsF, jtF)"
    unfolding calc_loop_start [OF ti] .
  then have "calc_loop ((j, toks ! j) # enumerate (Suc j) post) (js1 @ [i]) jt2 = Inr (jsF, jtF)"
    unfolding calc_loop_append c3 by simp
  then have c4: "calc_loop (enumerate (Suc j) post) js1 (jt2(j \<mapsto> i, i \<mapsto> Suc j)) = Inr (jsF, jtF)"
    unfolding calc_loop_end [OF tj] .
  then have fr: "\<forall>x<Suc j. x \<notin> set js1 \<longrightarrow> jtF x = (jt2(j \<mapsto> i, i \<mapsto> Suc j)) x"
    by (rule calc_loop_frame [THEN conjunct1])
  have "i \<notin> set js1" "j \<notin> set js1" using below ij by auto
  with fr ij show ?thesis by simp
qed


subsection \<open>What the constructor returns\<close>

lemma init_Inr:
  assumes "calc_loop (enumerate 0 toks) [] Map.empty = Inr (js, jt)"
  shows "\<exists>I. interpreter_init toks b = Inr I \<and> tokens I = toks \<and> jump_table I = jt"
proof -
  have "validate_loop (enumerate 0 toks) [] = Inr js"
    by (simp add: validate_loop_calc_loop [where jt = Map.empty] assms)
  then show ?thesis
    by (cases "b \<in> set [8, 16, 32, 64]")
      (simp_all add: interpreter_init_def validate_def calc_jump_table_def assms)
qed

lemma init_InrD:
  assumes "interpreter_init toks b = Inr I"
  shows "tokens I = toks"
    and "\<exists>js. calc_loop (enumerate 0 toks) [] Map.empty = Inr (js, jump_table I)"
    and "bits I \<in> {8, 16, 32, 64}"
    and "bitwidth I = 2 ^ nat (bits I)"
    and "bits I = (if b \<in> {8, 16, 32, 64} then b else 8)"
  using assms
  by (auto simp: interpreter_init_def calc_jump_table_def
      split: sum.splits if_splits prod.splits)

subsection \<open>Dictionary operations on the cell store\<close>

lemma getitem_setdefault [simp]: "getitem (setdefault d k v) k = Inr (case d k of None \<Rightarrow> v | Some w \<Rightarrow> w)"
  by (simp add: getitem_def setdefault_def split: option.splits)

lemma setdefault_idem [simp]: "setdefault (setdefault d k v) k v = setdefault d k v"
  by (simp add: setdefault_def split: option.splits)

lemma decrement_byte_setdefault:
  "decrement_byte bw (setdefault d p 0) p =
     Inr (let v = (case d p of None \<Rightarrow> 0 | Some w \<Rightarrow> w) in
          d(p \<mapsto> (if v - 1 = - 1 then bw - 1 else v - 1)))"
  by (auto simp: decrement_byte_def Let_def getitem_def setdefault_def split: option.splits)

lemma increment_byte_setdefault:
  "increment_byte bw (setdefault d p 0) p =
     Inr (let v = (case d p of None \<Rightarrow> 0 | Some w \<Rightarrow> w) in
          d(p \<mapsto> (if v + 1 = bw then 0 else v + 1)))"
  by (auto simp: increment_byte_def Let_def getitem_def setdefault_def split: option.splits)

section \<open>Claims about construction\<close>

text \<open>
  C1, as amended. For a balanced token sequence and a matched pair \<open>(i, j)\<close>, the
  interpreter is constructed and its jump table sends the \<open>LOOP_START\<close> index \<open>i\<close> to
  \<open>j + 1\<close>, the index after the matching \<open>LOOP_END\<close>, and the \<open>LOOP_END\<close> index \<open>j\<close>
  to \<open>i\<close>.
\<close>

theorem jump_table_matched_pair:
  assumes "balanced toks" and "matched_pair toks i j"
  shows "\<exists>I. interpreter_init toks b = Inr I \<and>
             jump_table I i = Some (j + 1) \<and> jump_table I j = Some i"
proof -
  from assms(1) have "bracket_depth (map type toks) 0 = Some 0"
    by (simp add: balanced_def)
  from calc_loop_depth_top [OF this] obtain js jt where
    c: "calc_loop (enumerate 0 toks) [] Map.empty = Inr (js, jt)"
    by blast
  from init_Inr [OF c] obtain I where I: "interpreter_init toks b = Inr I"
    and jt: "jump_table I = jt"
    by blast
  from calc_loop_matched_pair [OF assms(2) c] have "jt i = Some (j + 1) \<and> jt j = Some i"
    by simp
  with I jt show ?thesis by simp
qed

theorem jump_table_matched_pair_witness:
  "balanced [Token LOOP_START 0, Token LOOP_START 1, Token LOOP_END 2, Token LOOP_END 3] \<and>
   matched_pair [Token LOOP_START 0, Token LOOP_START 1, Token LOOP_END 2, Token LOOP_END 3] 0 3 \<and>
   (\<exists>I. interpreter_init
          [Token LOOP_START 0, Token LOOP_START 1, Token LOOP_END 2, Token LOOP_END 3] 8 = Inr I \<and>
        jump_table I 0 = Some 4 \<and> jump_table I 3 = Some 0)"
proof -
  let ?T = "[Token LOOP_START 0, Token LOOP_START 1, Token LOOP_END 2, Token LOOP_END 3]"
  have b: "balanced ?T" by (simp add: balanced_def)
  have m: "matched_pair ?T 0 3" by (simp add: matched_pair_def balanced_def)
  from jump_table_matched_pair [OF b m, of 8] b m show ?thesis by simp
qed

text \<open>
  C1 as stated fails on \<open>[]\<close>: the pair \<open>(0, 1)\<close> is matched, and the table holds 2 under
  0 and 0 under 1, not 1 under 0 and 1 under 1.
\<close>

theorem jump_table_symmetry_counterexample:
  "balanced [Token LOOP_START 0, Token LOOP_END 1] \<and>
   matched_pair [Token LOOP_START 0, Token LOOP_END 1] 0 1 \<and>
   interpreter_init [Token LOOP_START 0, Token LOOP_END 1] 8 =
     Inr \<lparr>tokens = [Token LOOP_START 0, Token LOOP_END 1], jump_table = [1 \<mapsto> 0, 0 \<mapsto> 2],
          bits = 8, bitwidth = 256\<rparr>"
  by (simp add: balanced_def matched_pair_def interpreter_init_def validate_def
      calc_jump_table_def Let_def numeral_2_eq_2)

text \<open>
  C3. A token sequence with an unmatched \<open>LOOP_END\<close> makes the constructor raise (the
  \<open>IndexError\<close> of \<open>pop\<close>), so that no interpreter exists to run; on a balanced sequence
  \<open>validate\<close> returns \<open>True\<close> and the constructor returns an interpreter.
\<close>

theorem construction_validates:
  "(unmatched_loop_end toks \<longrightarrow> interpreter_init toks b = Inl IndexError) \<and>
   (balanced toks \<longrightarrow> validate toks = Inr True \<and> (\<exists>I. interpreter_init toks b = Inr I))"
  using init_unmatched [of toks b] init_depth [of toks 0 b] by (simp add: balanced_def)

theorem construction_validates_witness:
  "unmatched_loop_end [Token INCREMENT_BYTE 0, Token LOOP_END 1] \<and>
   interpreter_init [Token INCREMENT_BYTE 0, Token LOOP_END 1] 8 = Inl IndexError \<and>
   balanced [Token LOOP_START 0, Token DECREMENT_BYTE 1, Token LOOP_END 2] \<and>
   validate [Token LOOP_START 0, Token DECREMENT_BYTE 1, Token LOOP_END 2] = Inr True \<and>
   (\<exists>I. interpreter_init [Token LOOP_START 0, Token DECREMENT_BYTE 1, Token LOOP_END 2] 8 = Inr I)"
proof -
  have u: "unmatched_loop_end [Token INCREMENT_BYTE 0, Token LOOP_END 1]"
    by (simp add: unmatched_loop_end_def)
  have b: "balanced [Token LOOP_START 0, Token DECREMENT_BYTE 1, Token LOOP_END 2]"
    by (simp add: balanced_def)
  from u b construction_validates [of "[Token INCREMENT_BYTE 0, Token LOOP_END 1]" 8]
    construction_validates [of "[Token LOOP_START 0, Token DECREMENT_BYTE 1, Token LOOP_END 2]" 8]
  show ?thesis by blast
qed

text \<open>
  C4. When every \<open>LOOP_END\<close> closes an open loop and a \<open>LOOP_START\<close> stays open at the
  end, \<open>validate\<close> returns \<open>False\<close> and the constructor returns an interpreter all the
  same: it does not look at the verdict.
\<close>

theorem trailing_loop_start_ignored:
  assumes "unclosed_loop_start toks"
  shows "validate toks = Inr False \<and> (\<exists>I. interpreter_init toks b = Inr I)"
proof -
  from assms obtain d where "bracket_depth (map type toks) 0 = Some d" and "0 < d"
    by (auto simp: unclosed_loop_start_def split: option.splits)
  with init_depth [of toks d b] show ?thesis by simp
qed

theorem trailing_loop_start_ignored_witness:
  "unclosed_loop_start [Token LOOP_START 0, Token LOOP_START 1, Token LOOP_END 2] \<and>
   validate [Token LOOP_START 0, Token LOOP_START 1, Token LOOP_END 2] = Inr False \<and>
   (\<exists>I. interpreter_init [Token LOOP_START 0, Token LOOP_START 1, Token LOOP_END 2] 8 = Inr I)"
proof -
  have u: "unclosed_loop_start [Token LOOP_START 0, Token LOOP_START 1, Token LOOP_END 2]"
    by (simp add: unclosed_loop_start_def)
  from u trailing_loop_start_ignored [OF u, of 8] show ?thesis by blast
qed

text \<open>
  C8. A requested bit-width among 8, 16, 32, 64 is kept, with modulus \<open>2^bits\<close>. Any other
  requested value gives the interpreter that 8 would give (and raises only where 8 would),
  with bit-width 8 and modulus 256. An interpreter constructed with bit-width 16 executes
  \<open>DECREMENT_BYTE\<close> on a cell that holds 0, or is not yet in the store, by storing
  \<open>2^16 - 1\<close>.
\<close>

theorem bit_width_selection:
  "(b \<in> {8, 16, 32, 64} \<and> interpreter_init toks b = Inr I \<longrightarrow>
      bits I = b \<and> bitwidth I = 2 ^ nat b) \<and>
   (b \<notin> {8, 16, 32, 64} \<longrightarrow>
      interpreter_init toks b = interpreter_init toks 8 \<and>
      (interpreter_init toks b = Inr I \<longrightarrow> bits I = 8 \<and> bitwidth I = 256)) \<and>
   (interpreter_init toks 16 = Inr I \<and> instr s < length (tokens I) \<and>
    type (tokens I ! instr s) = DECREMENT_BYTE \<and> data s (pointer s) \<in> {None, Some 0} \<longrightarrow>
      (\<exists>s'. loop_body I s = Inr s' \<and> data s' (pointer s) = Some (2 ^ 16 - 1)))"
proof (intro conjI impI)
  assume "b \<in> {8, 16, 32, 64} \<and> interpreter_init toks b = Inr I"
  then show "bits I = b" and "bitwidth I = 2 ^ nat b"
    using init_InrD(4,5) [of toks b I] by simp_all
next
  assume "b \<notin> {8, 16, 32, 64}"
  then show "interpreter_init toks b = interpreter_init toks 8"
    by (auto simp: interpreter_init_def split: sum.splits)
next
  assume "b \<notin> {8, 16, 32, 64}" and "interpreter_init toks b = Inr I"
  then show "bits I = 8" and "bitwidth I = 256"
    using init_InrD(4,5) [of toks b I] by simp_all
next
  assume a: "interpreter_init toks 16 = Inr I \<and> instr s < length (tokens I) \<and>
    type (tokens I ! instr s) = DECREMENT_BYTE \<and> data s (pointer s) \<in> {None, Some 0}"
  then have bw: "bitwidth I = 2 ^ 16" using init_InrD(4,5) [of toks 16 I] by simp
  from a have "data s (pointer s) = None \<or> data s (pointer s) = Some 0" by simp
  then show "\<exists>s'. loop_body I s = Inr s' \<and> data s' (pointer s) = Some (2 ^ 16 - 1)"
    using a bw by (auto simp: loop_body_def Let_def decrement_byte_setdefault)
qed

theorem bit_width_selection_witness:
  "interpreter_init [Token DECREMENT_BYTE 0] 7 = interpreter_init [Token DECREMENT_BYTE 0] 8 \<and>
   interpreter_init [Token DECREMENT_BYTE 0] 7 =
     Inr \<lparr>tokens = [Token DECREMENT_BYTE 0], jump_table = Map.empty, bits = 8, bitwidth = 256\<rparr> \<and>
   interpreter_init [Token DECREMENT_BYTE 0] 16 =
     Inr \<lparr>tokens = [Token DECREMENT_BYTE 0], jump_table = Map.empty, bits = 16, bitwidth = 65536\<rparr> \<and>
   (\<exists>s'. loop_body
            \<lparr>tokens = [Token DECREMENT_BYTE 0], jump_table = Map.empty, bits = 16, bitwidth = 65536\<rparr>
            (tick initial_state) = Inr s' \<and>
         data s' 0 = Some 65535)"
proof -
  let ?T = "[Token DECREMENT_BYTE 0]"
  let ?I8 = "\<lparr>tokens = ?T, jump_table = Map.empty, bits = 8, bitwidth = 256\<rparr>"
  let ?I16 = "\<lparr>tokens = ?T, jump_table = Map.empty, bits = 16, bitwidth = 65536\<rparr>"
  have i7: "interpreter_init ?T 7 = Inr ?I8"
    by (simp add: interpreter_init_def validate_def calc_jump_table_def)
  have i16: "interpreter_init ?T 16 = Inr ?I16"
    by (simp add: interpreter_init_def validate_def calc_jump_table_def)
  from i7 i16 bit_width_selection [of 7 ?T ?I8 "tick initial_state"]
    bit_width_selection [of 16 ?T ?I16 "tick initial_state"]
  show ?thesis by (simp add: tick_def initial_state_def)
qed

section \<open>A complete run\<close>

text \<open>
  C5. The text \<open>++>+++++[<+>-]<.\<close> with bit-width 8 is tokenized, constructed and run;
  the run leaves the loop and returns the string of the single code point 7.
\<close>

theorem run_add_program:
  "run_file (py_str ''++>+++++[<+>-]<.'') 8 = Some (Inr [7])"
  by code_simp

section \<open>The tokenizer\<close>

lemma recognized_iff: "recognized c \<longleftrightarrow> c \<in> dom token_enum_map"
  by (auto simp: recognized_def py_str_def token_enum_map_def)

lemma recognized_not_whitespace: "recognized c \<Longrightarrow> c \<notin> set valid_whitespaces"
  by (auto simp: recognized_def py_str_def valid_whitespaces_def)

lemma from_char_recognized:
  "recognized c \<Longrightarrow> from_char c idx = Inr (Token (symbol_kind c) idx)"
  by (auto simp: recognized_def py_str_def from_char_def token_enum_map_def symbol_kind_def)

lemma tokenize_loop_filter:
  "tokenize_loop (enumerate k program) toks =
     Inr (toks @ map (\<lambda>(idx, c). Token (symbol_kind c) idx)
                   (filter (\<lambda>(idx, c). recognized c) (enumerate k program)))"
proof (induction program arbitrary: k toks)
  case Nil
  show ?case by simp
next
  case (Cons c program)
  show ?case
  proof (cases "recognized c")
    case True
    then show ?thesis
      using recognized_not_whitespace [OF True] from_char_recognized [OF True, of k]
      by (simp add: Cons.IH recognized_iff [symmetric])
  next
    case False
    then show ?thesis by (simp add: Cons.IH recognized_iff [symmetric])
  qed
qed

text \<open>
  C7. The tokenizer never raises. Its result lists, in source order, one token for each
  character of the text that is one of the eight symbols, of the kind section 4.1 assigns
  to the symbol and tagged with the zero-based offset of the character; every other
  character, whitespace included, leaves no token.
\<close>

theorem tokenize_recognized_symbols:
  "tokenize program =
     Inr (map (\<lambda>(idx, c). Token (symbol_kind c) idx)
            (filter (\<lambda>(idx, c). recognized c) (enumerate 0 program)))"
  by (simp add: tokenize_def tokenize_loop_filter)

theorem tokenize_recognized_symbols_witness:
  "tokenize (py_str ''a +[x] '') = Inr [Token INCREMENT_BYTE 2, Token LOOP_START 3, Token LOOP_END 5]"
  using tokenize_recognized_symbols [of "py_str ''a +[x] ''"]
  by (simp add: py_str_def recognized_def symbol_kind_def)

section \<open>Single steps\<close>

text \<open>
  C9, as amended. A pass that executes \<open>INCREMENT_POINTER\<close> or \<open>DECREMENT_POINTER\<close> moves
  the pointer by one (up or down), advances the instruction index by one and leaves the
  output alone. It leaves the cell store unchanged when the cell at the old pointer is in
  the store, and otherwise adds that one cell with value 0 (the \<open>setdefault\<close> at the head
  of every pass).
\<close>

theorem move_pointer_step:
  assumes "instr s < length (tokens I)"
    and "type (tokens I ! instr s) = INCREMENT_POINTER \<or>
         type (tokens I ! instr s) = DECREMENT_POINTER"
  shows "\<exists>s'. loop_body I s = Inr s' \<and>
     pointer s' = (if type (tokens I ! instr s) = INCREMENT_POINTER
                   then pointer s + 1 else pointer s - 1) \<and>
     instr s' = instr s + 1 \<and> steps s' = steps s \<and> out s' = out s \<and>
     data s' = (if pointer s \<in> dom (data s) then data s else (data s)(pointer s \<mapsto> 0))"
  using assms(2) by (auto simp: loop_body_def Let_def setdefault_def split: option.splits)

theorem move_pointer_step_witness:
  "instr (tick initial_state) < length (tokens \<lparr>tokens = [Token DECREMENT_POINTER 0], jump_table = Map.empty, bits = 8, bitwidth = 256\<rparr>) \<and>
   (\<exists>s'. loop_body \<lparr>tokens = [Token DECREMENT_POINTER 0], jump_table = Map.empty, bits = 8, bitwidth = 256\<rparr>
            (tick initial_state) = Inr s' \<and>
         pointer s' = - 1 \<and> instr s' = 1 \<and> out s' = [] \<and> data s' = [0 \<mapsto> 0])"
proof -
  let ?I = "\<lparr>tokens = [Token DECREMENT_POINTER 0], jump_table = Map.empty, bits = 8, bitwidth = 256\<rparr>"
  have h1: "instr (tick initial_state) < length (tokens ?I)"
    by (simp add: tick_def initial_state_def)
  have h2: "type (tokens ?I ! instr (tick initial_state)) = INCREMENT_POINTER \<or>
         type (tokens ?I ! instr (tick initial_state)) = DECREMENT_POINTER"
    by (simp add: tick_def initial_state_def)
  from move_pointer_step [OF h1 h2] h1 show ?thesis
    by (auto simp: tick_def initial_state_def)
qed

text \<open>
  C9 as stated fails on the program \<open>>\<close>: the first pass starts with an empty cell store
  and ends with the cell at address 0 in it.
\<close>

theorem move_pointer_store_counterexample:
  "interpreter_init [Token INCREMENT_POINTER 0] 8 =
     Inr \<lparr>tokens = [Token INCREMENT_POINTER 0], jump_table = Map.empty, bits = 8, bitwidth = 256\<rparr> \<and>
   data (tick initial_state) = Map.empty \<and>
   loop_body \<lparr>tokens = [Token INCREMENT_POINTER 0], jump_table = Map.empty, bits = 8, bitwidth = 256\<rparr>
     (tick initial_state) =
     Inr \<lparr>pointer = 1, instr = 1, steps = 1, data = [0 \<mapsto> 0], out = []\<rparr> \<and>
   dom [0 \<mapsto> (0::int)] \<noteq> dom (Map.empty :: int \<rightharpoonup> int)"
  by (simp add: interpreter_init_def validate_def calc_jump_table_def tick_def initial_state_def
      loop_body_def Let_def setdefault_def)

section \<open>Invariants of execution\<close>

subsection \<open>The range of the cells\<close>

lemma cells_in_range_setdefault:
  "cells_in_range I d \<Longrightarrow> cells_in_range I (setdefault d p 0)"
  by (auto simp: cells_in_range_def setdefault_def ran_def split: option.splits if_splits)

lemma cells_in_range_update:
  "cells_in_range I d \<Longrightarrow> 0 \<le> v \<Longrightarrow> v < 2 ^ nat (bits I) \<Longrightarrow> cells_in_range I (d(p \<mapsto> v))"
  by (auto simp: cells_in_range_def ran_def split: if_splits)

lemma cells_in_range_lookup:
  "cells_in_range I d \<Longrightarrow> d p = Some v \<Longrightarrow> 0 \<le> v \<and> v < 2 ^ nat (bits I)"
  by (auto simp: cells_in_range_def ran_def)

lemma cells_in_range_default:
  "cells_in_range I d \<Longrightarrow>
   0 \<le> (case d p of None \<Rightarrow> 0 | Some w \<Rightarrow> w) \<and> (case d p of None \<Rightarrow> 0 | Some w \<Rightarrow> w) < 2 ^ nat (bits I)"
  by (auto dest: cells_in_range_lookup split: option.splits)

lemma loop_body_cells_in_range:
  assumes bw: "bitwidth I = 2 ^ nat (bits I)"
    and inv: "cells_in_range I (data s)"
    and step: "loop_body I s = Inr s'"
  shows "cells_in_range I (data s')"
proof -
  let ?d = "setdefault (data s) (pointer s) 0"
  let ?v = "case data s (pointer s) of None \<Rightarrow> 0 | Some w \<Rightarrow> w"
  have d: "cells_in_range I ?d" using inv by (rule cells_in_range_setdefault)
  have v: "0 \<le> ?v" "?v < 2 ^ nat (bits I)" using cells_in_range_default [OF inv] by auto
  have pos: "(0::int) < 2 ^ nat (bits I)" by simp
  show ?thesis
  proof (cases "type (tokens I ! instr s)")
    case INCREMENT_BYTE
    with step have "data s' = (data s)(pointer s \<mapsto> (if ?v + 1 = bitwidth I then 0 else ?v + 1))"
      by (auto simp: loop_body_def Let_def increment_byte_setdefault)
    moreover have "0 \<le> (if ?v + 1 = bitwidth I then 0 else ?v + 1)" using v by simp
    moreover have "(if ?v + 1 = bitwidth I then 0 else ?v + 1) < 2 ^ nat (bits I)"
      using v pos bw by auto
    ultimately show ?thesis using cells_in_range_update [OF inv] by simp
  next
    case DECREMENT_BYTE
    with step have "data s' = (data s)(pointer s \<mapsto> (if ?v - 1 = - 1 then bitwidth I - 1 else ?v - 1))"
      by (auto simp: loop_body_def Let_def decrement_byte_setdefault)
    moreover have "0 \<le> (if ?v - 1 = - 1 then bitwidth I - 1 else ?v - 1)" using v pos bw by auto
    moreover have "(if ?v - 1 = - 1 then bitwidth I - 1 else ?v - 1) < 2 ^ nat (bits I)"
      using v pos bw by auto
    ultimately show ?thesis using cells_in_range_update [OF inv] by simp
  next
    case OUTPUT_BYTE
    with step have "data s' = ?d"
      by (auto simp: loop_body_def Let_def split: sum.splits)
    with d show ?thesis by simp
  next
    case INCREMENT_POINTER
    with step have "data s' = ?d" by (auto simp: loop_body_def Let_def)
    with d show ?thesis by simp
  next
    case DECREMENT_POINTER
    with step have "data s' = ?d" by (auto simp: loop_body_def Let_def)
    with d show ?thesis by simp
  next
    case INPUT_BYTE
    with step have "data s' = ?d" by (auto simp: loop_body_def Let_def)
    with d show ?thesis by simp
  next
    case LOOP_START
    with step have "data s' = ?d"
      by (auto simp: loop_body_def Let_def split: sum.splits if_splits)
    with d show ?thesis by simp
  next
    case LOOP_END
    with step have "data s' = ?d"
      by (auto simp: loop_body_def Let_def split: sum.splits if_splits)
    with d show ?thesis by simp
  qed
qed

lemma reachable_cells_in_range:
  assumes bw: "bitwidth I = 2 ^ nat (bits I)" and r: "reachable I s"
  shows "cells_in_range I (data s)"
  using r
proof (induction rule: reachable.induct)
  case reachable_init
  show ?case by (simp add: cells_in_range_def initial_state_def)
next
  case (reachable_step s s')
  from reachable_step.IH have "cells_in_range I (data (tick s))" by (simp add: tick_def)
  from loop_body_cells_in_range [OF bw this reachable_step.hyps(3)] show ?case .
qed

subsection \<open>Where a pass can raise\<close>

lemma getitem_Inl_iff: "getitem m k = Inl e \<longleftrightarrow> e = KeyError \<and> m k = None"
  by (auto simp: getitem_def split: option.splits)

lemma loop_body_error:
  assumes "loop_body I s = Inl e"
  shows "(e = KeyError \<and> is_bracket (tokens I ! instr s) \<and> jump_table I (instr s) = None) \<or>
         (e = ValueError \<and> type (tokens I ! instr s) = OUTPUT_BYTE \<and>
          py_chr (case data s (pointer s) of None \<Rightarrow> 0 | Some w \<Rightarrow> w) = Inl ValueError)"
proof (cases "type (tokens I ! instr s)")
  case OUTPUT_BYTE
  with assms show ?thesis
    by (auto simp: loop_body_def Let_def py_chr_def split: sum.splits if_splits)
next
  case LOOP_START
  with assms show ?thesis
    by (auto simp: loop_body_def Let_def is_bracket_def getitem_Inl_iff
        split: sum.splits if_splits)
next
  case LOOP_END
  with assms show ?thesis
    by (auto simp: loop_body_def Let_def is_bracket_def getitem_Inl_iff
        split: sum.splits if_splits)
qed (use assms in \<open>auto simp: loop_body_def Let_def increment_byte_setdefault
      decrement_byte_setdefault\<close>)

lemma run_loop_error_aux:
  assumes "run_loop I s = Some y"
  shows "reachable I s \<longrightarrow> y = Inl e \<longrightarrow>
   (\<exists>s'. reachable I s' \<and> instr (tick s') < length (tokens I) \<and>
         loop_body I (tick s') = Inl e)"
proof (rule run_loop.raw_induct [where P = "\<lambda>I s y. reachable I s \<longrightarrow> y = Inl e \<longrightarrow>
   (\<exists>s'. reachable I s' \<and> instr (tick s') < length (tokens I) \<and>
         loop_body I (tick s') = Inl e)", OF _ assms])
  fix f :: "BrainfuckInterpreter \<Rightarrow> run_state \<Rightarrow> (error + pystr) option"
  fix I s y
  assume IH: "\<And>I s y. f I s = Some y \<Longrightarrow> reachable I s \<longrightarrow> y = Inl e \<longrightarrow>
      (\<exists>s'. reachable I s' \<and> instr (tick s') < length (tokens I) \<and>
         loop_body I (tick s') = Inl e)"
    and eq: "(if length (tokens I) \<le> instr (tick s) then Some (Inr (out (tick s)))
      else case loop_body I (tick s) of Inl e \<Rightarrow> Some (Inl e) | Inr s' \<Rightarrow> f I s') = Some y"
  show "reachable I s \<longrightarrow> y = Inl e \<longrightarrow>
      (\<exists>s'. reachable I s' \<and> instr (tick s') < length (tokens I) \<and>
         loop_body I (tick s') = Inl e)"
  proof (intro impI)
    assume r: "reachable I s" and y: "y = Inl e"
    from eq y have lt: "instr (tick s) < length (tokens I)"
      by (auto split: if_splits)
    show "\<exists>s'. reachable I s' \<and> instr (tick s') < length (tokens I) \<and>
         loop_body I (tick s') = Inl e"
    proof (cases "loop_body I (tick s)")
      case (Inl e')
      with eq lt y r show ?thesis by auto
    next
      case (Inr s')
      with eq lt have "f I s' = Some y" by simp
      moreover have "reachable I s'" using r lt Inr by (rule reachable_step)
      ultimately show ?thesis using IH y by blast
    qed
  qed
qed

lemma run_loop_error:
  assumes "run_loop I s = Some (Inl e)" and "reachable I s"
  shows "\<exists>s'. reachable I s' \<and> instr (tick s') < length (tokens I) \<and>
              loop_body I (tick s') = Inl e"
  using run_loop_error_aux [OF assms(1), of e] assms(2) by simp

lemma jump_table_total:
  assumes init: "interpreter_init toks b = Inr I" and bal: "balanced toks"
    and i: "i < length toks" and br: "is_bracket (toks ! i)"
  shows "jump_table I i \<noteq> None"
proof -
  from init_InrD(2) [OF init] obtain js where
    c: "calc_loop (enumerate 0 toks) [] Map.empty = Inr (js, jump_table I)" by blast
  from bal have "bracket_depth (map type toks) 0 = Some 0" by (simp add: balanced_def)
  from calc_loop_depth_top [OF this] c have js: "js = []" by auto
  have "(i, toks ! i) \<in> set (enumerate 0 toks)" using i by (simp add: in_set_enumerate_eq)
  with br have "i \<in> {x. \<exists>t. (x, t) \<in> set (enumerate 0 toks) \<and> is_bracket t}" by blast
  with calc_loop_dom [OF c] js show ?thesis by auto
qed

section \<open>Claims about execution\<close>

text \<open>
  C6. For an interpreter the constructor returns, every value in the cell store of every
  state an execution reaches lies in \<open>[0, 2^bits)\<close>. \<open>INCREMENT_BYTE\<close> takes a cell from
  \<open>2^bits - 1\<close> to 0 and \<open>DECREMENT_BYTE\<close> takes a cell from 0 to \<open>2^bits - 1\<close>.
\<close>

theorem cell_values_in_range:
  assumes "interpreter_init toks b = Inr I" and "reachable I s"
  shows "(\<forall>v \<in> ran (data s). 0 \<le> v \<and> v < 2 ^ nat (bits I)) \<and>
         increment_byte (bitwidth I) (d(p \<mapsto> 2 ^ nat (bits I) - 1)) p = Inr (d(p \<mapsto> 0)) \<and>
         decrement_byte (bitwidth I) (d(p \<mapsto> 0)) p = Inr (d(p \<mapsto> 2 ^ nat (bits I) - 1))"
proof -
  have bw: "bitwidth I = 2 ^ nat (bits I)" using assms(1) by (rule init_InrD(4))
  from reachable_cells_in_range [OF bw assms(2)]
  have "\<forall>v \<in> ran (data s). 0 \<le> v \<and> v < 2 ^ nat (bits I)"
    by (simp add: cells_in_range_def)
  moreover have "increment_byte (bitwidth I) (d(p \<mapsto> 2 ^ nat (bits I) - 1)) p = Inr (d(p \<mapsto> 0))"
    by (simp add: increment_byte_def getitem_def bw)
  moreover have "decrement_byte (bitwidth I) (d(p \<mapsto> 0)) p = Inr (d(p \<mapsto> 2 ^ nat (bits I) - 1))"
    by (simp add: decrement_byte_def getitem_def bw)
  ultimately show ?thesis by blast
qed

theorem cell_values_in_range_witness:
  "interpreter_init [Token DECREMENT_BYTE 0] 8 =
     Inr \<lparr>tokens = [Token DECREMENT_BYTE 0], jump_table = Map.empty, bits = 8, bitwidth = 256\<rparr> \<and>
   reachable \<lparr>tokens = [Token DECREMENT_BYTE 0], jump_table = Map.empty, bits = 8, bitwidth = 256\<rparr>
     \<lparr>pointer = 0, instr = 1, steps = 1, data = [0 \<mapsto> 255], out = []\<rparr> \<and>
   ran [(0::int) \<mapsto> (255::int)] = {255} \<and> (0::int) \<le> 255 \<and> (255::int) < 2 ^ nat 8 \<and>
   increment_byte 256 [(0::int) \<mapsto> 255] 0 = Inr [0 \<mapsto> 0] \<and>
   decrement_byte 256 [(0::int) \<mapsto> 0] 0 = Inr [0 \<mapsto> 255]"
proof -
  let ?T = "[Token DECREMENT_BYTE 0]"
  let ?I = "\<lparr>tokens = ?T, jump_table = Map.empty, bits = 8, bitwidth = 256\<rparr>"
  let ?s = "\<lparr>pointer = 0, instr = 1, steps = 1, data = [0 \<mapsto> 255], out = []\<rparr>"
  have i: "interpreter_init ?T 8 = Inr ?I"
    by (simp add: interpreter_init_def validate_def calc_jump_table_def)
  have lt: "instr (tick initial_state) < length (tokens ?I)"
    by (simp add: tick_def initial_state_def)
  have st: "loop_body ?I (tick initial_state) = Inr ?s"
    by (simp add: loop_body_def Let_def tick_def initial_state_def decrement_byte_setdefault)
  have r: "reachable ?I ?s"
    using reachable_init lt st by (rule reachable_step)
  from cell_values_in_range [OF i r, of "Map.empty" 0] i r show ?thesis by simp
qed

text \<open>
  C10. \<open>chr\<close> accepts the code points up to \<open>0x10FFFF\<close>. With bit-width 8 or 16 every
  pass that executes \<open>OUTPUT_BYTE\<close> in a reachable state succeeds and appends the code
  point of the current cell. With bit-width 32 or 64 the balanced program \<open>-.\<close> is
  constructed and its run raises at the \<open>OUTPUT_BYTE\<close>, the cell holding \<open>2^bits - 1\<close>.
\<close>

theorem output_code_point_range:
  "(interpreter_init toks b = Inr I \<and> bits I \<in> {8, 16} \<and> reachable I s \<and>
    instr (tick s) < length (tokens I) \<and> type (tokens I ! instr (tick s)) = OUTPUT_BYTE \<longrightarrow>
      (\<exists>s'. loop_body I (tick s) = Inr s' \<and>
            out s' = out s @ [nat (case data s (pointer s) of None \<Rightarrow> 0 | Some v \<Rightarrow> v)])) \<and>
   (b \<in> {32, 64} \<longrightarrow>
      tokenize (py_str ''-.'') = Inr [Token DECREMENT_BYTE 0, Token OUTPUT_BYTE 1] \<and>
      balanced [Token DECREMENT_BYTE 0, Token OUTPUT_BYTE 1] \<and>
      (\<exists>J. interpreter_init [Token DECREMENT_BYTE 0, Token OUTPUT_BYTE 1] b = Inr J \<and>
           run J = Some (Inl ValueError)))"
proof (intro conjI impI)
  assume a: "interpreter_init toks b = Inr I \<and> bits I \<in> {8, 16} \<and> reachable I s \<and>
    instr (tick s) < length (tokens I) \<and> type (tokens I ! instr (tick s)) = OUTPUT_BYTE"
  let ?v = "case data s (pointer s) of None \<Rightarrow> 0 | Some v \<Rightarrow> v"
  from a have bw: "bitwidth I = 2 ^ nat (bits I)" using init_InrD(4) by blast
  from a have "cells_in_range I (data s)" using reachable_cells_in_range [OF bw] by blast
  from cells_in_range_default [OF this, of "pointer s"]
  have v: "0 \<le> ?v" "?v < 2 ^ nat (bits I)" by auto
  from a have "(2::int) ^ nat (bits I) \<le> 0x10FFFF" by auto
  with v have "py_chr ?v = Inr (nat ?v)" by (simp add: py_chr_def)
  with a show "\<exists>s'. loop_body I (tick s) = Inr s' \<and> out s' = out s @ [nat ?v]"
    by (simp add: loop_body_def Let_def tick_def)
next
  show "tokenize (py_str ''-.'') = Inr [Token DECREMENT_BYTE 0, Token OUTPUT_BYTE 1]"
    by (simp add: tokenize_def py_str_def token_enum_map_def valid_whitespaces_def from_char_def)
next
  show "balanced [Token DECREMENT_BYTE 0, Token OUTPUT_BYTE 1]"
    by (simp add: balanced_def)
next
  assume "b \<in> {32, 64}"
  then consider "b = 32" | "b = 64" by auto
  then show "\<exists>J. interpreter_init [Token DECREMENT_BYTE 0, Token OUTPUT_BYTE 1] b = Inr J \<and>
           run J = Some (Inl ValueError)"
  proof cases
    case 1
    have "case_sum (\<lambda>e. None) run (interpreter_init [Token DECREMENT_BYTE 0, Token OUTPUT_BYTE 1] 32)
        = Some (Inl ValueError)"
      by code_simp
    with 1 show ?thesis by (auto split: sum.splits)
  next
    case 2
    have "case_sum (\<lambda>e. None) run (interpreter_init [Token DECREMENT_BYTE 0, Token OUTPUT_BYTE 1] 64)
        = Some (Inl ValueError)"
      by code_simp
    with 2 show ?thesis by (auto split: sum.splits)
  qed
qed

theorem output_code_point_range_witness:
  "interpreter_init [Token DECREMENT_BYTE 0, Token OUTPUT_BYTE 1] 16 =
     Inr \<lparr>tokens = [Token DECREMENT_BYTE 0, Token OUTPUT_BYTE 1], jump_table = Map.empty,
          bits = 16, bitwidth = 65536\<rparr> \<and>
   reachable \<lparr>tokens = [Token DECREMENT_BYTE 0, Token OUTPUT_BYTE 1], jump_table = Map.empty,
          bits = 16, bitwidth = 65536\<rparr>
     \<lparr>pointer = 0, instr = 1, steps = 1, data = [0 \<mapsto> 65535], out = []\<rparr> \<and>
   (\<exists>s'. loop_body \<lparr>tokens = [Token DECREMENT_BYTE 0, Token OUTPUT_BYTE 1], jump_table = Map.empty,
          bits = 16, bitwidth = 65536\<rparr>
          (tick \<lparr>pointer = 0, instr = 1, steps = 1, data = [0 \<mapsto> 65535], out = []\<rparr>) = Inr s' \<and>
        out s' = [65535]) \<and>
   (\<exists>J. interpreter_init [Token DECREMENT_BYTE 0, Token OUTPUT_BYTE 1] 32 = Inr J \<and>
        run J = Some (Inl ValueError))"
proof -
  let ?T = "[Token DECREMENT_BYTE 0, Token OUTPUT_BYTE 1]"
  let ?I = "\<lparr>tokens = ?T, jump_table = Map.empty, bits = 16, bitwidth = 65536\<rparr>"
  let ?s = "\<lparr>pointer = 0, instr = 1, steps = 1, data = [0 \<mapsto> 65535], out = []\<rparr>"
  have i: "interpreter_init ?T 16 = Inr ?I"
    by (simp add: interpreter_init_def validate_def calc_jump_table_def)
  have lt: "instr (tick initial_state) < length (tokens ?I)"
    by (simp add: tick_def initial_state_def)
  have st: "loop_body ?I (tick initial_state) = Inr ?s"
    by (simp add: loop_body_def Let_def tick_def initial_state_def decrement_byte_setdefault)
  have r: "reachable ?I ?s"
    using reachable_init lt st by (rule reachable_step)
  have h: "bits ?I \<in> {8, 16} \<and> instr (tick ?s) < length (tokens ?I) \<and>
      type (tokens ?I ! instr (tick ?s)) = OUTPUT_BYTE"
    by (simp add: tick_def)
  from output_code_point_range [of ?T 16 ?I ?s] output_code_point_range [of ?T 32 ?I ?s] i r h
  show ?thesis by simp
qed

text \<open>
  C2, as amended. On a balanced token sequence the constructor returns an interpreter, and
  the only error its run can raise is the one of \<open>chr\<close> at an \<open>OUTPUT_BYTE\<close>, and that only
  with bit-width 32 or 64: every jump-table lookup finds its key. With bit-width 8 or 16
  the run raises nothing; it returns its output or never leaves the loop.
\<close>

theorem run_raises_only_chr:
  assumes "balanced toks"
  shows "\<exists>I. interpreter_init toks b = Inr I \<and>
             (\<forall>e. run I = Some (Inl e) \<longrightarrow> e = ValueError \<and> bits I \<in> {32, 64})"
proof -
  from assms have "bracket_depth (map type toks) 0 = Some 0" by (simp add: balanced_def)
  from init_depth [OF this, of b] obtain I where I: "interpreter_init toks b = Inr I" by blast
  have toks: "tokens I = toks" using I by (rule init_InrD(1))
  have bw: "bitwidth I = 2 ^ nat (bits I)" using I by (rule init_InrD(4))
  have bs: "bits I \<in> {8, 16, 32, 64}" using I by (rule init_InrD(3))
  have "e = ValueError \<and> bits I \<in> {32, 64}" if run: "run I = Some (Inl e)" for e
  proof -
    from run have "run_loop I initial_state = Some (Inl e)" by (simp add: run_def)
    from run_loop_error [OF this reachable_init] obtain s where
      r: "reachable I s" and lt: "instr (tick s) < length (tokens I)"
      and err: "loop_body I (tick s) = Inl e"
      by blast
    from loop_body_error [OF err] show ?thesis
    proof
      assume k: "e = KeyError \<and> is_bracket (tokens I ! instr (tick s)) \<and>
          jump_table I (instr (tick s)) = None"
      with jump_table_total [OF I assms, of "instr (tick s)"] lt toks show ?thesis by simp
    next
      assume v: "e = ValueError \<and> type (tokens I ! instr (tick s)) = OUTPUT_BYTE \<and>
          py_chr (case data (tick s) (pointer (tick s)) of None \<Rightarrow> 0 | Some w \<Rightarrow> w)
            = Inl ValueError"
      let ?v = "case data s (pointer s) of None \<Rightarrow> 0 | Some w \<Rightarrow> w"
      from reachable_cells_in_range [OF bw r] have "cells_in_range I (data s)" .
      from cells_in_range_default [OF this, of "pointer s"]
      have rng: "0 \<le> ?v" "?v < 2 ^ nat (bits I)" by auto
      from v have "\<not> ?v \<le> 0x10FFFF" using rng(1)
        by (simp add: py_chr_def tick_def split: if_splits)
      with rng(2) have "\<not> (2::int) ^ nat (bits I) \<le> 0x10FFFF" by linarith
      with bs have "bits I \<in> {32, 64}" by auto
      with v show ?thesis by simp
    qed
  qed
  with I show ?thesis by blast
qed

theorem run_raises_only_chr_witness:
  "balanced [Token INCREMENT_BYTE 0, Token LOOP_START 1, Token DECREMENT_BYTE 2, Token LOOP_END 3,
             Token OUTPUT_BYTE 4] \<and>
   (\<exists>I. interpreter_init
          [Token INCREMENT_BYTE 0, Token LOOP_START 1, Token DECREMENT_BYTE 2, Token LOOP_END 3,
           Token OUTPUT_BYTE 4] 8 = Inr I \<and>
        run I = Some (Inr [0])) \<and>
   balanced [Token DECREMENT_BYTE 0, Token OUTPUT_BYTE 1] \<and>
   (\<exists>I. interpreter_init [Token DECREMENT_BYTE 0, Token OUTPUT_BYTE 1] 32 = Inr I \<and>
        run I = Some (Inl ValueError) \<and> bits I \<in> {32, 64})"
proof -
  let ?T1 = "[Token INCREMENT_BYTE 0, Token LOOP_START 1, Token DECREMENT_BYTE 2,
      Token LOOP_END 3, Token OUTPUT_BYTE 4]"
  let ?T2 = "[Token DECREMENT_BYTE 0, Token OUTPUT_BYTE 1]"
  have b1: "balanced ?T1" by (simp add: balanced_def)
  have b2: "balanced ?T2" by (simp add: balanced_def)
  have r1: "case_sum (\<lambda>e. None) run (interpreter_init ?T1 8) = Some (Inr [0])"
    by code_simp
  have r2: "case_sum (\<lambda>e. None) run (interpreter_init ?T2 32) = Some (Inl ValueError)"
    by code_simp
  from run_raises_only_chr [OF b1, of 8] r1
  have "\<exists>I. interpreter_init ?T1 8 = Inr I \<and> run I = Some (Inr [0])"
    by auto
  moreover from run_raises_only_chr [OF b2, of 32] r2
  have "\<exists>I. interpreter_init ?T2 32 = Inr I \<and> run I = Some (Inl ValueError) \<and>
        bits I \<in> {32, 64}"
    by auto
  ultimately show ?thesis using b1 b2 by blast
qed

text \<open>
  C2 as stated fails on two constructed interpreters: the program \<open>[\<close> with bit-width 8,
  whose run looks up the missing jump-table key 0, and the balanced program \<open>-.\<close> with
  bit-width 32, whose run passes \<open>2^32 - 1\<close> to \<open>chr\<close>.
\<close>

theorem run_raises_counterexample:
  "interpreter_init [Token LOOP_START 0] 8 =
     Inr \<lparr>tokens = [Token LOOP_START 0], jump_table = Map.empty, bits = 8, bitwidth = 256\<rparr> \<and>
   run \<lparr>tokens = [Token LOOP_START 0], jump_table = Map.empty, bits = 8, bitwidth = 256\<rparr>
     = Some (Inl KeyError) \<and>
   interpreter_init [Token DECREMENT_BYTE 0, Token OUTPUT_BYTE 1] 32 =
     Inr \<lparr>tokens = [Token DECREMENT_BYTE 0, Token OUTPUT_BYTE 1], jump_table = Map.empty,
          bits = 32, bitwidth = 4294967296\<rparr> \<and>
   run \<lparr>tokens = [Token DECREMENT_BYTE 0, Token OUTPUT_BYTE 1], jump_table = Map.empty,
          bits = 32, bitwidth = 4294967296\<rparr>
     = Some (Inl ValueError)"
proof -
  have "interpreter_init [Token LOOP_START 0] 8 =
     Inr \<lparr>tokens = [Token LOOP_START 0], jump_table = Map.empty, bits = 8, bitwidth = 256\<rparr>"
    by (simp add: interpreter_init_def validate_def calc_jump_table_def)
  moreover have "run \<lparr>tokens = [Token LOOP_START 0], jump_table = Map.empty, bits = 8,
      bitwidth = 256\<rparr> = Some (Inl KeyError)"
    by code_simp
  moreover have "interpreter_init [Token DECREMENT_BYTE 0, Token OUTPUT_BYTE 1] 32 =
     Inr \<lparr>tokens = [Token DECREMENT_BYTE 0, Token OUTPUT_BYTE 1], jump_table = Map.empty,
          bits = 32, bitwidth = 4294967296\<rparr>"
    by (simp add: interpreter_init_def validate_def calc_jump_table_def)
  moreover have "run \<lparr>tokens = [Token DECREMENT_BYTE 0, Token OUTPUT_BYTE 1],
      jump_table = Map.empty, bits = 32, bitwidth = 4294967296\<rparr> = Some (Inl ValueError)"
    by code_simp
  ultimately show ?thesis by blast
qed

end
